theory Spec2Isabelle
  imports Main "HOL-Library.Word"
begin

unbundle bit_operations_syntax

section \<open>Data model of smalloc\<close>

text \<open>
  The allocator is C code over raw memory. Pointers and \<^verbatim>\<open>SIZE_T\<close>
  (\<^verbatim>\<open>unsigned long\<close>) are 32-bit words, as on the ILP32 target the source's own
  comment assumes ("24-byte header" for the six-field \<^verbatim>\<open>struct BLOCK\<close>); the null
  pointer is the word 0 and all arithmetic wraps modulo \<open>2 ^ 32\<close>.

  Memory is one array of bytes indexed by address. Every structure field is a 32-bit
  word stored in four consecutive bytes, least significant byte first, so that headers
  which overlap in memory overwrite each other just as they do in the machine.
\<close>

type_synonym addr = "32 word"
type_synonym size_t = "32 word"
type_synonym byte = "8 word"
type_synonym memory = "addr \<Rightarrow> byte"

definition load32 :: "memory \<Rightarrow> addr \<Rightarrow> 32 word" where
  "load32 m a =
     ucast (m a) OR push_bit 8 (ucast (m (a + 1))) OR
     push_bit 16 (ucast (m (a + 2))) OR push_bit 24 (ucast (m (a + 3)))"

definition store32 :: "memory \<Rightarrow> addr \<Rightarrow> 32 word \<Rightarrow> memory" where
  "store32 m a v =
     m(a := ucast v, a + 1 := ucast (drop_bit 8 v),
       a + 2 := ucast (drop_bit 16 v), a + 3 := ucast (drop_bit 24 v))"

text \<open>Two regions of memory, \<open>n\<close> bytes from \<open>a\<close> and \<open>k\<close> bytes from \<open>b\<close>, lie apart:
  going up from either start (around the top of the address space if need be), the other
  region is reached only after the first has ended.\<close>

definition apart :: "addr \<Rightarrow> nat \<Rightarrow> addr \<Rightarrow> nat \<Rightarrow> bool" where
  "apart a n b k = (n \<le> unat (b - a) \<and> k \<le> unat (a - b))"

text \<open>\<^verbatim>\<open>#define ALLOCD 1\<close>, and the three \<^verbatim>\<open>sizeof\<close> values under ILP32.\<close>

definition ALLOCD :: "32 word" where
  "ALLOCD = 1"

definition CHUNK_SZ :: size_t where
  "CHUNK_SZ = 12"

definition FREED_SZ :: size_t where
  "FREED_SZ = 20"

definition BLOCK_HEADER_SZ :: size_t where
  "BLOCK_HEADER_SZ = 24"

text \<open>
  \<^verbatim>\<open>struct FREED\<close>: a \<^verbatim>\<open>struct CHUNK\<close> header (block, size, flags, at offsets 0, 4
  and 8) followed by the two free-list links (next and prev, at offsets 12 and 16), which
  live in what is payload while the chunk is allocated.
\<close>

record FREED =
  c_block :: addr
  c_size :: size_t
  c_flags :: "32 word"
  f_next :: addr
  f_prev :: addr

text \<open>\<^verbatim>\<open>struct BLOCK\<close>: prev, next, size, remaining, top and free at offsets 0, 4, 8,
  12, 16 and 20.\<close>

record BLOCK =
  b_prev :: addr
  b_next :: addr
  b_size :: size_t
  b_remaining :: size_t
  b_top :: addr
  b_free :: addr

text \<open>The allocator's globals and the memory it works on.\<close>

record heap =
  HEAP_TOP :: addr
  HEAP_BOTTOM :: addr
  PAGESIZE :: size_t
  first_block :: addr
  last_block :: addr
  mem :: memory

text \<open>Reading memory at an address as a \<^verbatim>\<open>struct FREED\<close> or a \<^verbatim>\<open>struct BLOCK\<close>: a field
  read \<^verbatim>\<open>p->f\<close> is \<open>f (chunks s p)\<close> or \<open>f (blocks s p)\<close>.\<close>

definition chunks :: "heap \<Rightarrow> addr \<Rightarrow> FREED" where
  "chunks s p =
     \<lparr>c_block = load32 (mem s) p, c_size = load32 (mem s) (p + 4),
      c_flags = load32 (mem s) (p + 8), f_next = load32 (mem s) (p + 12),
      f_prev = load32 (mem s) (p + 16)\<rparr>"

definition blocks :: "heap \<Rightarrow> addr \<Rightarrow> BLOCK" where
  "blocks s p =
     \<lparr>b_prev = load32 (mem s) p, b_next = load32 (mem s) (p + 4),
      b_size = load32 (mem s) (p + 8), b_remaining = load32 (mem s) (p + 12),
      b_top = load32 (mem s) (p + 16), b_free = load32 (mem s) (p + 20)\<rparr>"

text \<open>Writing one field through a pointer: \<^verbatim>\<open>p->f = v\<close>.\<close>

definition store :: "addr \<Rightarrow> 32 word \<Rightarrow> heap \<Rightarrow> heap" where
  "store a v s = s\<lparr>mem := store32 (mem s) a v\<rparr>"

definition set_c_block :: "addr \<Rightarrow> addr \<Rightarrow> heap \<Rightarrow> heap" where
  "set_c_block p v s = store p v s"

definition set_c_size :: "addr \<Rightarrow> size_t \<Rightarrow> heap \<Rightarrow> heap" where
  "set_c_size p v s = store (p + 4) v s"

definition set_c_flags :: "addr \<Rightarrow> 32 word \<Rightarrow> heap \<Rightarrow> heap" where
  "set_c_flags p v s = store (p + 8) v s"

definition set_f_next :: "addr \<Rightarrow> addr \<Rightarrow> heap \<Rightarrow> heap" where
  "set_f_next p v s = store (p + 12) v s"

definition set_f_prev :: "addr \<Rightarrow> addr \<Rightarrow> heap \<Rightarrow> heap" where
  "set_f_prev p v s = store (p + 16) v s"

definition set_b_prev :: "addr \<Rightarrow> addr \<Rightarrow> heap \<Rightarrow> heap" where
  "set_b_prev p v s = store p v s"

definition set_b_next :: "addr \<Rightarrow> addr \<Rightarrow> heap \<Rightarrow> heap" where
  "set_b_next p v s = store (p + 4) v s"

definition set_b_size :: "addr \<Rightarrow> size_t \<Rightarrow> heap \<Rightarrow> heap" where
  "set_b_size p v s = store (p + 8) v s"

definition set_b_remaining :: "addr \<Rightarrow> size_t \<Rightarrow> heap \<Rightarrow> heap" where
  "set_b_remaining p v s = store (p + 12) v s"

definition set_b_top :: "addr \<Rightarrow> addr \<Rightarrow> heap \<Rightarrow> heap" where
  "set_b_top p v s = store (p + 16) v s"

definition set_b_free :: "addr \<Rightarrow> addr \<Rightarrow> heap \<Rightarrow> heap" where
  "set_b_free p v s = store (p + 20) v s"

text \<open>The static initialisers of the globals, over some memory contents.\<close>

definition heap0 :: "memory \<Rightarrow> heap" where
  "heap0 m =
     \<lparr>HEAP_TOP = 0x07ffff, HEAP_BOTTOM = 0x050000, PAGESIZE = 8192,
      first_block = 0, last_block = 0, mem = m\<rparr>"

definition zero_heap :: heap where
  "zero_heap = heap0 (\<lambda>_. 0)"

section \<open>The operations\<close>

subsection \<open>\<^verbatim>\<open>__smalloc_init\<close>\<close>

definition smalloc_init :: "heap \<Rightarrow> size_t \<Rightarrow> size_t \<Rightarrow> size_t \<Rightarrow> heap" where
  "smalloc_init s top' sz bottom =
     (if bottom > top' \<or> top' - bottom < sz then s
      else s\<lparr>HEAP_TOP := top', PAGESIZE := sz, HEAP_BOTTOM := bottom,
             first_block := 0, last_block := 0\<rparr>)"

subsection \<open>\<^verbatim>\<open>__use_freed_chunk\<close>\<close>

text \<open>The three conditional pointer writes that dequeue \<open>freed\<close>, each reading memory
  as the previous one left it.\<close>

definition unlink_freed :: "heap \<Rightarrow> addr \<Rightarrow> addr \<Rightarrow> heap" where
  "unlink_freed s block freed =
     (let s1 = (if freed = b_free (blocks s block)
                then set_b_free block (f_next (chunks s freed)) s else s);
          s2 = (if f_next (chunks s1 freed) \<noteq> 0
                then set_f_prev (f_next (chunks s1 freed)) (f_prev (chunks s1 freed)) s1
                else s1);
          s3 = (if f_prev (chunks s2 freed) \<noteq> 0
                then set_f_next (f_prev (chunks s2 freed)) (f_next (chunks s2 freed)) s2
                else s2)
      in s3)"

text \<open>The inner loop over one block's free-list. It returns the record found (dequeued),
  or 0 with the memory untouched when the list ends. A cyclic list makes it run forever:
  the value \<open>None\<close>.\<close>

partial_function (option) use_freed_chunk_inner ::
  "heap \<Rightarrow> addr \<Rightarrow> addr \<Rightarrow> size_t \<Rightarrow> size_t \<Rightarrow> (addr \<times> heap) option" where
  "use_freed_chunk_inner s block freed minSize maxSize =
     (if freed = 0 then Some (0, s)
      else if c_size (chunks s freed) \<ge> minSize \<and> c_size (chunks s freed) \<le> maxSize
           then Some (freed, unlink_freed s block freed)
           else use_freed_chunk_inner s block (f_next (chunks s freed)) minSize maxSize)"

declare use_freed_chunk_inner.simps [code]

text \<open>The outer loop over the blocks.\<close>

partial_function (option) use_freed_chunk_outer ::
  "heap \<Rightarrow> addr \<Rightarrow> size_t \<Rightarrow> size_t \<Rightarrow> (addr \<times> heap) option" where
  "use_freed_chunk_outer s block minSize maxSize =
     (if block = 0 then Some (0, s)
      else case use_freed_chunk_inner s block (b_free (blocks s block)) minSize maxSize of
             None \<Rightarrow> None
           | Some r \<Rightarrow>
               if fst r \<noteq> 0 then Some r
               else use_freed_chunk_outer (snd r) (b_next (blocks (snd r) block)) minSize maxSize)"

declare use_freed_chunk_outer.simps [code]

definition use_freed_chunk :: "heap \<Rightarrow> size_t \<Rightarrow> size_t \<Rightarrow> (addr \<times> heap) option" where
  "use_freed_chunk s minSize maxSize = use_freed_chunk_outer s (first_block s) minSize maxSize"

subsection \<open>\<^verbatim>\<open>__block_with_free_space\<close>\<close>

partial_function (option) block_with_free_space_loop ::
  "heap \<Rightarrow> addr \<Rightarrow> size_t \<Rightarrow> addr option" where
  "block_with_free_space_loop s block sz =
     (if block = 0 then Some 0
      else if b_remaining (blocks s block) \<ge> sz then Some block
      else block_with_free_space_loop s (b_next (blocks s block)) sz)"

declare block_with_free_space_loop.simps [code]

definition block_with_free_space :: "heap \<Rightarrow> size_t \<Rightarrow> addr option" where
  "block_with_free_space s sz = block_with_free_space_loop s (first_block s) sz"

subsection \<open>\<^verbatim>\<open>__new_block\<close>\<close>

text \<open>The block size chosen, and the address growth starts from. \<^verbatim>\<open>__last_block - 1\<close>
  is arithmetic on a \<^verbatim>\<open>struct BLOCK*\<close>: it steps one block header down.\<close>

definition new_block_size :: "heap \<Rightarrow> size_t \<Rightarrow> size_t" where
  "new_block_size s requestedSize =
     (let sz = requestedSize + BLOCK_HEADER_SZ
      in if sz < PAGESIZE s then PAGESIZE s else sz)"

definition new_block_start :: "heap \<Rightarrow> addr" where
  "new_block_start s =
     (if last_block s = 0 then HEAP_TOP s else last_block s - BLOCK_HEADER_SZ)"

definition new_block :: "heap \<Rightarrow> size_t \<Rightarrow> addr \<times> heap" where
  "new_block s requestedSize =
     (let sz = new_block_size s requestedSize;
          start = new_block_start s
      in if start - sz < HEAP_BOTTOM s then (0, s)
         else
           let block = start - sz;
               s1 = set_b_free block 0 s;
               s2 = set_b_prev block (last_block s1) s1;
               s3 = set_b_next block 0 s2;
               s4 = set_b_size block sz s3;
               s5 = set_b_remaining block (b_size (blocks s4 block) - BLOCK_HEADER_SZ) s4;
               s6 = set_b_top block (block + BLOCK_HEADER_SZ) s5
           in if first_block s6 = 0
              then (block, s6\<lparr>first_block := block, last_block := block\<rparr>)
              else (block, (set_b_next (last_block s6) block s6)\<lparr>last_block := block\<rparr>))"

subsection \<open>\<^verbatim>\<open>smalloc\<close>\<close>

definition alloc_size :: "size_t \<Rightarrow> size_t" where
  "alloc_size n =
     (let allocSize = n + CHUNK_SZ
      in if allocSize < FREED_SZ then FREED_SZ else allocSize)"

text \<open>Carving \<open>allocSize\<close> bytes at the bump cursor of \<open>block\<close>.\<close>

definition carve :: "heap \<Rightarrow> addr \<Rightarrow> size_t \<Rightarrow> addr \<times> heap" where
  "carve s block allocSize =
     (let chunk = b_top (blocks s block);
          s1 = set_b_top block (b_top (blocks s block) + allocSize) s;
          s2 = set_b_remaining block (b_remaining (blocks s1 block) - allocSize) s1;
          s3 = set_c_block chunk block s2;
          s4 = set_c_size chunk allocSize s3;
          s5 = set_c_flags chunk ALLOCD s4
      in (chunk + CHUNK_SZ, s5))"

definition smalloc :: "heap \<Rightarrow> size_t \<Rightarrow> (addr \<times> heap) option" where
  "smalloc s n =
     (let allocSize = alloc_size n;
          doubleSize = push_bit 1 allocSize
      in case use_freed_chunk s allocSize doubleSize of
           None \<Rightarrow> None
         | Some (freed, s1) \<Rightarrow>
             if freed \<noteq> 0
             then Some (freed + CHUNK_SZ,
                        set_c_flags freed (c_flags (chunks s1 freed) OR ALLOCD) s1)
             else
               case block_with_free_space s1 allocSize of
                 None \<Rightarrow> None
               | Some b0 \<Rightarrow>
                   (case (if b0 = 0 then new_block s1 allocSize else (b0, s1)) of
                      (block, s2) \<Rightarrow>
                        if block = 0 then Some (0, s2)
                        else Some (carve s2 block allocSize)))"

subsection \<open>\<^verbatim>\<open>sfree\<close>\<close>

definition sfree :: "heap \<Rightarrow> addr \<Rightarrow> heap" where
  "sfree s ptr =
     (let chunk = ptr - CHUNK_SZ
      in if c_flags (chunks s chunk) AND ALLOCD = 0 then s
         else
           let block = c_block (chunks s chunk);
               s1 = set_f_prev chunk 0 s;
               s2 = set_f_next chunk (b_free (blocks s1 block)) s1;
               s3 = (if b_free (blocks s2 block) = 0
                     then set_b_free block chunk s2
                     else set_b_free block chunk
                            (set_f_prev (b_free (blocks s2 block)) chunk s2))
           in set_c_flags chunk (c_flags (chunks s3 chunk) AND NOT ALLOCD) s3)"

subsection \<open>\<^verbatim>\<open>__smalloc_used\<close> and \<^verbatim>\<open>__smalloc_avail\<close>\<close>




partial_function (option) smalloc_avail_inner ::
  "heap \<Rightarrow> addr \<Rightarrow> size_t \<Rightarrow> size_t option" where
  "smalloc_avail_inner s freed inFree =
     (if freed = 0 then Some inFree
      else smalloc_avail_inner s (f_next (chunks s freed)) (inFree + c_size (chunks s freed)))"

declare smalloc_avail_inner.simps [code]

partial_function (option) smalloc_avail_outer ::
  "heap \<Rightarrow> addr \<Rightarrow> size_t \<Rightarrow> size_t \<Rightarrow> (size_t \<times> size_t) option" where
  "smalloc_avail_outer s block inBlocks inFree =
     (if block = 0 then Some (inBlocks, inFree)
      else case smalloc_avail_inner s (b_free (blocks s block)) inFree of
             None \<Rightarrow> None
           | Some inFree' \<Rightarrow>
               smalloc_avail_outer s (b_next (blocks s block))
                 (inBlocks + b_remaining (blocks s block)) inFree')"

declare smalloc_avail_outer.simps [code]

text \<open>The result is (return value, \<open>*inBlocks\<close>, \<open>*inFree\<close>).\<close>

definition smalloc_avail :: "heap \<Rightarrow> (size_t \<times> size_t \<times> size_t) option" where
  "smalloc_avail s =
     (let unallocdHeap = (if last_block s \<noteq> 0 then last_block s - HEAP_BOTTOM s
                          else HEAP_TOP s - HEAP_BOTTOM s)
      in case smalloc_avail_outer s (first_block s) 0 0 of
           None \<Rightarrow> None
         | Some (inBlocks, inFree) \<Rightarrow> Some (unallocdHeap, inBlocks, inFree))"

subsection \<open>\<^verbatim>\<open>memcpy\<close>\<close>

text \<open>The loop tests both pointers and the count before every byte.\<close>

function memcpy_loop :: "memory \<Rightarrow> addr \<Rightarrow> addr \<Rightarrow> size_t \<Rightarrow> memory" where
  "memcpy_loop m d s count =
     (if d \<noteq> 0 \<and> s \<noteq> 0 \<and> count \<noteq> 0
      then memcpy_loop (m(d := m s)) (d + 1) (s + 1) (count - 1)
      else m)"
  by pat_completeness auto
termination
  by (relation "measure (\<lambda>(m, d, s, count). unat count)")
     (auto simp: unat_minus_one unat_gt_0)

declare memcpy_loop.simps [simp del]

definition memcpy :: "memory \<Rightarrow> addr \<Rightarrow> addr \<Rightarrow> size_t \<Rightarrow> addr \<times> memory" where
  "memcpy m dst src count = (dst, memcpy_loop m dst src count)"

section \<open>Specification-level notions\<close>

text \<open>Copying \<open>k\<close> bytes from \<open>s\<close> to \<open>d\<close>, lowest address first: what the description
  of \<^verbatim>\<open>memcpy\<close> asks for, to be compared with the loop.\<close>

primrec copy_ascending :: "(addr \<Rightarrow> byte) \<Rightarrow> addr \<Rightarrow> addr \<Rightarrow> nat \<Rightarrow> (addr \<Rightarrow> byte)" where
  "copy_ascending m d s 0 = m"
| "copy_ascending m d s (Suc k) = copy_ascending (m(d := m s)) (d + 1) (s + 1) k"

text \<open>A byte memory for examples: 7 at address \<^verbatim>\<open>0x1002\<close>, 0 elsewhere.\<close>

definition pattern_mem :: "addr \<Rightarrow> byte" where
  "pattern_mem a = (if a = 0x1002 then 7 else 0)"

section \<open>The heap as linked structures\<close>

text \<open>
  The lists the allocator keeps in memory, read off as lists of addresses: the block list
  through \<^verbatim>\<open>next\<close> from a given pointer, ending with the null pointer; a free-list through
  \<^verbatim>\<open>next\<close> with the back links \<^verbatim>\<open>prev\<close> (the first record's \<^verbatim>\<open>prev\<close> is \<open>pv\<close>); and the
  chunks carved from a block, which tile the addresses from the end of the block header
  to the bump cursor, each recording its block and a size of at least a freed record.
\<close>

fun block_path :: "(addr \<Rightarrow> BLOCK) \<Rightarrow> addr \<Rightarrow> addr list \<Rightarrow> bool" where
  "block_path bm p [] = (p = 0)"
| "block_path bm p (b # bs) = (p = b \<and> b \<noteq> 0 \<and> block_path bm (b_next (bm b)) bs)"

fun free_path :: "(addr \<Rightarrow> FREED) \<Rightarrow> addr \<Rightarrow> addr \<Rightarrow> addr list \<Rightarrow> bool" where
  "free_path cm pv p [] = (p = 0)"
| "free_path cm pv p (c # cs) =
     (p = c \<and> c \<noteq> 0 \<and> f_prev (cm c) = pv \<and> free_path cm c (f_next (cm c)) cs)"

fun chunk_chain :: "(addr \<Rightarrow> FREED) \<Rightarrow> addr \<Rightarrow> nat \<Rightarrow> addr list \<Rightarrow> nat \<Rightarrow> bool" where
  "chunk_chain cm b a [] e = (a = e)"
| "chunk_chain cm b a (c # cs) e =
     (unat c = a \<and> c_block (cm c) = b \<and> unat FREED_SZ \<le> unat (c_size (cm c)) \<and>
      chunk_chain cm b (a + unat (c_size (cm c))) cs e)"

definition allocd :: "FREED \<Rightarrow> bool" where
  "allocd c = (c_flags c AND ALLOCD \<noteq> 0)"

text \<open>
  A layout lists the blocks in creation order, each with the chunks carved from it (by
  address) and its free-list (head first). A block is in order when its chunks tile the
  carved region, the cursor and the remaining capacity add up to the block's end, its
  free-list is a well-linked list of its own chunks, and exactly the chunks on the
  free-list have the allocation flag clear.
\<close>

type_synonym layout = "(addr \<times> addr list \<times> addr list) list"

definition block_ok :: "heap \<Rightarrow> addr \<times> addr list \<times> addr list \<Rightarrow> bool" where
  "block_ok s e =
     (case e of (b, cs, fl) \<Rightarrow>
        chunk_chain (chunks s) b (unat b + unat BLOCK_HEADER_SZ) cs (unat (b_top (blocks s b))) \<and>
        unat (b_top (blocks s b)) + unat (b_remaining (blocks s b)) =
          unat b + unat (b_size (blocks s b)) \<and>
        free_path (chunks s) 0 (b_free (blocks s b)) fl \<and>
        set fl \<subseteq> set cs \<and>
        list_all (\<lambda>c. allocd (chunks s c) = (c \<notin> set fl)) cs)"

text \<open>Blocks grow downward: the first ends at the top boundary, each later one ends one
  block header below the start of the one before.\<close>

fun blocks_below :: "(addr \<Rightarrow> BLOCK) \<Rightarrow> nat \<Rightarrow> addr list \<Rightarrow> bool" where
  "blocks_below bm lim [] = True"
| "blocks_below bm lim (b # bs) =
     (unat b + unat (b_size (bm b)) = lim \<and>
      blocks_below bm (unat b - unat BLOCK_HEADER_SZ) bs)"

definition heap_inv :: "heap \<Rightarrow> layout \<Rightarrow> bool" where
  "heap_inv s L =
     (block_path (blocks s) (first_block s) (map fst L) \<and>
      last_block s = (if L = [] then 0 else fst (last L)) \<and>
      blocks_below (blocks s) (unat (HEAP_TOP s)) (map fst L) \<and>
      list_all (block_ok s) L)"

text \<open>
  Growth for a chunk of \<open>R\<close> bytes stays inside the address arithmetic the code relies
  on: the block size does not overflow, stepping down from the last block and by the
  block size does not wrap below address 0, and the bottom boundary is not the null
  address.
\<close>

definition grow_safe :: "heap \<Rightarrow> size_t \<Rightarrow> bool" where
  "grow_safe s R =
     (unat R + unat BLOCK_HEADER_SZ < 2 ^ 32 \<and> HEAP_BOTTOM s \<noteq> 0 \<and>
      (last_block s = 0 \<or> unat BLOCK_HEADER_SZ \<le> unat (last_block s)) \<and>
      unat (new_block_size s R) \<le> unat (new_block_start s))"

text \<open>
  The search the recycle step is described by: blocks in creation order, each block's
  free-list from its head, the first record that satisfies \<open>W\<close> wins. The result is the
  block and the record.
\<close>

fun first_fit :: "(addr \<Rightarrow> bool) \<Rightarrow> layout \<Rightarrow> (addr \<times> addr) option" where
  "first_fit W [] = None"
| "first_fit W ((b, cs, fl) # L) =
     (case find W fl of Some c \<Rightarrow> Some (b, c) | None \<Rightarrow> first_fit W L)"

text \<open>The window test of the recycle step on the record at \<open>c\<close>.\<close>

definition in_window :: "heap \<Rightarrow> size_t \<Rightarrow> size_t \<Rightarrow> addr \<Rightarrow> bool" where
  "in_window s minSize maxSize c =
     (minSize \<le> c_size (chunks s c) \<and> c_size (chunks s c) \<le> maxSize)"

text \<open>Byte counts over a layout, as natural numbers: the total size of a list of chunks,
  and the bytes carved, free and remaining in the whole heap.\<close>

definition chunk_bytes :: "heap \<Rightarrow> addr list \<Rightarrow> nat" where
  "chunk_bytes s cs = sum_list (map (\<lambda>c. unat (c_size (chunks s c))) cs)"

definition free_bytes :: "heap \<Rightarrow> layout \<Rightarrow> nat" where
  "free_bytes s L = sum_list (map (\<lambda>e. chunk_bytes s (snd (snd e))) L)"

definition remaining_bytes :: "heap \<Rightarrow> layout \<Rightarrow> nat" where
  "remaining_bytes s L = sum_list (map (\<lambda>e. unat (b_remaining (blocks s (fst e)))) L)"



section \<open>Example heaps\<close>

text \<open>From the zeroed default heap: one 1-byte allocation; and two allocations, of 30 and
  100 bytes, both freed again, the 30-byte one first.\<close>

definition heap_one_chunk :: heap where
  "heap_one_chunk = snd (the (smalloc zero_heap 1))"


text \<open>Requests near the top of \<^verbatim>\<open>SIZE_T\<close>, on the zeroed default heap: a request of
  \<^verbatim>\<open>0xFFFFFFE4\<close> bytes, and a zero-byte request after it.\<close>

definition heap_huge_request :: heap where
  "heap_huge_request = snd (the (smalloc zero_heap 0xFFFFFFE4))"

definition heap_huge_then_zero :: heap where
  "heap_huge_then_zero = snd (the (smalloc heap_huge_request 0))"

text \<open>A heap configured to span nearly the whole address space, in which a request of
  \<open>2 ^ 31\<close> bytes has been served (at \<^verbatim>\<open>0x7FFFFFFF\<close>) and freed again.\<close>

definition heap_half_freed :: heap where
  "heap_half_freed =
     (let s0 = smalloc_init zero_heap 0xFFFFFFFF 0x1000 0x1000;
          s1 = snd (the (smalloc s0 0x80000000))
      in sfree s1 0x7FFFFFFF)"

section \<open>Memory: words as bytes\<close>

lemma byte_addrs_distinct:
  fixes a :: addr
  shows "a + 1 \<noteq> a" "a + 2 \<noteq> a" "a + 3 \<noteq> a" "a + 2 \<noteq> a + 1" "a + 3 \<noteq> a + 1"
    "a + 3 \<noteq> a + 2" "a \<noteq> a + 1" "a \<noteq> a + 2" "a \<noteq> a + 3" "a + 1 \<noteq> a + 2"
    "a + 1 \<noteq> a + 3" "a + 2 \<noteq> a + 3"
  by simp_all

lemma word_of_bytes:
  fixes v :: "32 word"
  shows "ucast (ucast v :: byte) OR push_bit 8 (ucast (ucast (drop_bit 8 v) :: byte)) OR
     push_bit 16 (ucast (ucast (drop_bit 16 v) :: byte)) OR
     push_bit 24 (ucast (ucast (drop_bit 24 v) :: byte)) = v"
  apply (rule bit_word_eqI)
  subgoal for n
    apply (cases "n < 8"; cases "n < 16"; cases "n < 24")
    apply (simp_all add: bit_simps)
    apply (cases "bit v n"; simp; arith)+
    done
  done

text \<open>A word read back from where it was stored.\<close>

lemma load32_store32_same: "load32 (store32 m a v) a = v"
  by (simp add: load32_def store32_def byte_addrs_distinct word_of_bytes)

lemma load32_store32_eq: "a = b \<Longrightarrow> load32 (store32 m a v) b = v"
  by (simp add: load32_store32_same)

lemma neq_by_diff:
  fixes a b :: addr
  assumes "4 \<le> unat (b - a)" "4 \<le> unat (a - b)" "i \<in> {0, 1, 2, 3}" "j \<in> {0, 1, 2, 3}"
  shows "a + i \<noteq> b + j"
proof
  assume "a + i = b + j"
  then have "b - a = i - j" "a - b = j - i" by (simp_all add: algebra_simps)
  with assms show False by auto
qed

text \<open>A word read from bytes that a store did not touch.\<close>

lemma load32_store32_apart:
  fixes a b :: addr
  assumes "4 \<le> unat (b - a)" "4 \<le> unat (a - b)"
  shows "load32 (store32 m a v) b = load32 m b"
proof -
  have "a + i \<noteq> b + j" if "i \<in> {0, 1, 2, 3}" "j \<in> {0, 1, 2, 3}" for i j
    using neq_by_diff[OF assms that] .
  from this[of 0 0] this[of 1 0] this[of 2 0] this[of 3 0]
       this[of 0 1] this[of 1 1] this[of 2 1] this[of 3 1]
       this[of 0 2] this[of 1 2] this[of 2 2] this[of 3 2]
       this[of 0 3] this[of 1 3] this[of 2 3] this[of 3 3]
  have "b \<noteq> a" "b \<noteq> a + 1" "b \<noteq> a + 2" "b \<noteq> a + 3"
    "b + 1 \<noteq> a" "b + 1 \<noteq> a + 1" "b + 1 \<noteq> a + 2" "b + 1 \<noteq> a + 3"
    "b + 2 \<noteq> a" "b + 2 \<noteq> a + 1" "b + 2 \<noteq> a + 2" "b + 2 \<noteq> a + 3"
    "b + 3 \<noteq> a" "b + 3 \<noteq> a + 1" "b + 3 \<noteq> a + 2" "b + 3 \<noteq> a + 3"
    by (simp_all add: eq_commute)
  then show ?thesis by (simp add: load32_def store32_def)
qed

lemma load32_zero: "load32 (\<lambda>_. 0) a = 0"
  by (simp add: load32_def)

lemma store_globals:
  "HEAP_TOP (store a v s) = HEAP_TOP s" "HEAP_BOTTOM (store a v s) = HEAP_BOTTOM s"
  "PAGESIZE (store a v s) = PAGESIZE s" "first_block (store a v s) = first_block s"
  "last_block (store a v s) = last_block s" "mem (store a v s) = store32 (mem s) a v"
  by (simp_all add: store_def)

text \<open>The fields of the two structures, read one at a time.\<close>

lemma blocks_fields:
  "b_prev (blocks s b) = load32 (mem s) b" "b_next (blocks s b) = load32 (mem s) (b + 4)"
  "b_size (blocks s b) = load32 (mem s) (b + 8)"
  "b_remaining (blocks s b) = load32 (mem s) (b + 12)"
  "b_top (blocks s b) = load32 (mem s) (b + 16)" "b_free (blocks s b) = load32 (mem s) (b + 20)"
  by (simp_all add: blocks_def)

lemma chunks_fields:
  "c_block (chunks s c) = load32 (mem s) c" "c_size (chunks s c) = load32 (mem s) (c + 4)"
  "c_flags (chunks s c) = load32 (mem s) (c + 8)" "f_next (chunks s c) = load32 (mem s) (c + 12)"
  "f_prev (chunks s c) = load32 (mem s) (c + 16)"
  by (simp_all add: chunks_def)

lemma blocks_eq:
  "(blocks s b = \<lparr>b_prev = pv, b_next = nx, b_size = sz, b_remaining = rm, b_top = tp,
      b_free = fr\<rparr>) =
   (load32 (mem s) b = pv \<and> load32 (mem s) (b + 4) = nx \<and> load32 (mem s) (b + 8) = sz \<and>
    load32 (mem s) (b + 12) = rm \<and> load32 (mem s) (b + 16) = tp \<and>
    load32 (mem s) (b + 20) = fr)"
  by (simp add: blocks_def)

lemma chunks_eq:
  "(chunks s c = \<lparr>c_block = bl, c_size = sz, c_flags = fg, f_next = nx, f_prev = pv\<rparr>) =
   (load32 (mem s) c = bl \<and> load32 (mem s) (c + 4) = sz \<and> load32 (mem s) (c + 8) = fg \<and>
    load32 (mem s) (c + 12) = nx \<and> load32 (mem s) (c + 16) = pv)"
  by (simp add: chunks_def)

section \<open>Running the operations on given heaps\<close>

lemmas setters =
  set_c_block_def set_c_size_def set_c_flags_def set_f_next_def set_f_prev_def
  set_b_prev_def set_b_next_def set_b_size_def set_b_remaining_def set_b_top_def
  set_b_free_def

lemmas sizes = ALLOCD_def CHUNK_SZ_def FREED_SZ_def BLOCK_HEADER_SZ_def

text \<open>One turn of each loop.\<close>

lemma use_freed_chunk_inner_null: "use_freed_chunk_inner s b 0 mn mx = Some (0, s)"
  by (subst use_freed_chunk_inner.simps) simp

lemma use_freed_chunk_inner_hit:
  "c \<noteq> 0 \<Longrightarrow> mn \<le> c_size (chunks s c) \<and> c_size (chunks s c) \<le> mx \<Longrightarrow>
   use_freed_chunk_inner s b c mn mx = Some (c, unlink_freed s b c)"
  by (subst use_freed_chunk_inner.simps) simp

lemma use_freed_chunk_inner_miss:
  "c \<noteq> 0 \<Longrightarrow> \<not> (mn \<le> c_size (chunks s c) \<and> c_size (chunks s c) \<le> mx) \<Longrightarrow>
   use_freed_chunk_inner s b c mn mx = use_freed_chunk_inner s b (f_next (chunks s c)) mn mx"
  by (subst use_freed_chunk_inner.simps) auto

lemma use_freed_chunk_outer_null: "use_freed_chunk_outer s 0 mn mx = Some (0, s)"
  by (subst use_freed_chunk_outer.simps) simp

lemma use_freed_chunk_outer_step:
  "b \<noteq> 0 \<Longrightarrow>
   use_freed_chunk_outer s b mn mx =
     (case use_freed_chunk_inner s b (b_free (blocks s b)) mn mx of
        None \<Rightarrow> None
      | Some r \<Rightarrow>
          if fst r \<noteq> 0 then Some r
          else use_freed_chunk_outer (snd r) (b_next (blocks (snd r) b)) mn mx)"
  by (subst use_freed_chunk_outer.simps) simp

lemma block_with_free_space_loop_null: "block_with_free_space_loop s 0 sz = Some 0"
  by (subst block_with_free_space_loop.simps) simp

lemma block_with_free_space_loop_hit:
  "b \<noteq> 0 \<Longrightarrow> sz \<le> b_remaining (blocks s b) \<Longrightarrow> block_with_free_space_loop s b sz = Some b"
  by (subst block_with_free_space_loop.simps) simp

lemma block_with_free_space_loop_miss:
  "b \<noteq> 0 \<Longrightarrow> \<not> sz \<le> b_remaining (blocks s b) \<Longrightarrow>
   block_with_free_space_loop s b sz = block_with_free_space_loop s (b_next (blocks s b)) sz"
  by (subst block_with_free_space_loop.simps) simp

lemmas loop_steps =
  use_freed_chunk_inner_null use_freed_chunk_inner_hit use_freed_chunk_inner_miss
  use_freed_chunk_outer_null use_freed_chunk_outer_step
  block_with_free_space_loop_null block_with_free_space_loop_hit
  block_with_free_space_loop_miss

text \<open>The rules that run an operation on a heap given by its stores.\<close>

lemmas run =
  smalloc_def sfree_def alloc_size_def use_freed_chunk_def block_with_free_space_def
  carve_def new_block_def new_block_size_def new_block_start_def unlink_freed_def
  loop_steps setters sizes store_globals blocks_fields chunks_fields blocks_eq chunks_eq
  Let_def
  load32_store32_eq load32_store32_apart load32_zero zero_heap_def heap0_def

section \<open>The example heaps\<close>



lemma heap_huge_request_views:
  "map_option fst (smalloc zero_heap 0xFFFFFFE4) = Some 0x7e023"
  "first_block heap_huge_request = 0x7dfff" "last_block heap_huge_request = 0x7dfff"
  "HEAP_TOP heap_huge_request = 0x7ffff" "HEAP_BOTTOM heap_huge_request = 0x50000"
  "PAGESIZE heap_huge_request = 8192"
  "blocks heap_huge_request 0x7dfff =
     \<lparr>b_prev = 0, b_next = 0, b_size = 8192, b_remaining = 8184, b_top = 0x7e007, b_free = 0\<rparr>"
  "chunks heap_huge_request 0x7e017 =
     \<lparr>c_block = 0x7dfff, c_size = 0xFFFFFFF0, c_flags = 1, f_next = 0, f_prev = 0\<rparr>"
  by (simp_all add: heap_huge_request_def run cong: let_weak_cong)

lemma heap_huge_then_zero_views:
  "map_option fst (smalloc heap_huge_request 0) = Some 0x7e013"
  "blocks heap_huge_then_zero 0x7dfff =
     \<lparr>b_prev = 0, b_next = 0, b_size = 0x7dfff, b_remaining = 20, b_top = 1, b_free = 0\<rparr>"
  "chunks heap_huge_then_zero 0x7e017 =
     \<lparr>c_block = 0x7dfff, c_size = 0xFFFFFFF0, c_flags = 1, f_next = 0, f_prev = 0\<rparr>"
  "chunks heap_huge_then_zero 0x7e007 =
     \<lparr>c_block = 0x7dfff, c_size = 20, c_flags = 1, f_next = 0, f_prev = 0x7dfff\<rparr>"
  by (simp_all add: heap_huge_then_zero_def heap_huge_request_def run cong: let_weak_cong)

lemma heap_half_freed_views:
  "map_option fst (smalloc (smalloc_init zero_heap 0xFFFFFFFF 0x1000 0x1000) 0x80000000) =
     Some 0x7FFFFFFF"
  "first_block heap_half_freed = 0x7FFFFFDB" "last_block heap_half_freed = 0x7FFFFFDB"
  "HEAP_TOP heap_half_freed = 0xFFFFFFFF" "HEAP_BOTTOM heap_half_freed = 0x1000"
  "PAGESIZE heap_half_freed = 0x1000"
  "blocks heap_half_freed 0x7FFFFFDB =
     \<lparr>b_prev = 0, b_next = 0, b_size = 0x80000024, b_remaining = 0, b_top = 0xFFFFFFFF,
      b_free = 0x7FFFFFF3\<rparr>"
  "chunks heap_half_freed 0x7FFFFFF3 =
     \<lparr>c_block = 0x7FFFFFDB, c_size = 0x8000000C, c_flags = 0, f_next = 0, f_prev = 0\<rparr>"
  by (simp_all add: heap_half_freed_def smalloc_init_def run cong: let_weak_cong)

lemma heap_half_freed_again:
  "map_option fst (smalloc heap_half_freed 0x80000000) = Some 0xFFFFFFC3"
  "b_free (blocks (snd (the (smalloc heap_half_freed 0x80000000))) 0x7FFFFFDB) = 0x7FFFFFF3"
  "c_flags (chunks (snd (the (smalloc heap_half_freed 0x80000000))) 0x7FFFFFF3) = 0"
  "last_block (snd (the (smalloc heap_half_freed 0x80000000))) = 0xFFFFFF9F"
  by (simp_all add: heap_half_freed_def smalloc_init_def run cong: let_weak_cong)

lemma new_block_over_header:
  "new_block_size heap_one_chunk 0xFFFFFFD4 = 0xFFFFFFEC"
  "fst (new_block heap_one_chunk 0xFFFFFFD4) = 0x7dffb"
  "b_size (blocks (snd (new_block heap_one_chunk 0xFFFFFFD4)) 0x7dffb) = 0x7dffb"
  by (simp_all add: heap_one_chunk_def run cong: let_weak_cong)

section \<open>Configuration\<close>

lemma smalloc_init_nat_guard:
  "(bottom > top' \<or> top' - bottom < sz) =
   (unat bottom > unat top' \<or> unat top' - unat bottom < unat sz)"
proof (cases "bottom \<le> top'")
  case True
  then have "unat (top' - bottom) = unat top' - unat bottom" by (rule unat_sub)
  with True show ?thesis by (auto simp: word_less_nat_alt word_le_nat_alt)
next
  case False
  then show ?thesis by (auto simp: word_less_nat_alt word_le_nat_alt)
qed

text \<open>
  Claim C7. Called with the low bound above the high bound, or with a span (high minus
  low) smaller than the requested minimum block size, \<open>__smalloc_init\<close> changes nothing:
  boundaries, minimum block size, block list and memory are as before. On any other
  input it installs the three values and resets the block list to empty (both list
  pointers null), leaving memory as it is.
\<close>

theorem smalloc_init_guard:
  "(unat bottom > unat top' \<or> unat top' - unat bottom < unat sz \<longrightarrow>
      smalloc_init s top' sz bottom = s) \<and>
   (\<not> (unat bottom > unat top' \<or> unat top' - unat bottom < unat sz) \<longrightarrow>
      smalloc_init s top' sz bottom =
        s\<lparr>HEAP_TOP := top', HEAP_BOTTOM := bottom, PAGESIZE := sz,
          first_block := 0, last_block := 0\<rparr>)"
  unfolding smalloc_init_nat_guard[symmetric]
  by (simp add: smalloc_init_def)

theorem smalloc_init_guard_witness:
  "smalloc_init zero_heap 0x6000 0x1000 0x8000 = zero_heap \<and>
   smalloc_init zero_heap 0x8000 0x2001 0x6000 = zero_heap \<and>
   smalloc_init zero_heap 0x8000 0x2000 0x6000 =
     zero_heap\<lparr>HEAP_TOP := 0x8000, HEAP_BOTTOM := 0x6000, PAGESIZE := 0x2000,
       first_block := 0, last_block := 0\<rparr>"
  using smalloc_init_guard[where top' = "0x6000" and sz = "0x1000" and bottom = "0x8000"
      and s = zero_heap]
    smalloc_init_guard[where top' = "0x8000" and sz = "0x2001" and bottom = "0x6000"
      and s = zero_heap]
    smalloc_init_guard[where top' = "0x8000" and sz = "0x2000" and bottom = "0x6000"
      and s = zero_heap]
  by simp

section \<open>\<^verbatim>\<open>memcpy\<close>\<close>

lemma memcpy_loop_null: "d = 0 \<or> s = 0 \<Longrightarrow> memcpy_loop m d s count = m"
  by (subst memcpy_loop.simps) auto

lemma unat_plus_one_le: "unat ((a :: addr) + 1) \<le> unat a + 1"
  by (simp add: unat_word_ariths)

lemma plus_one_neq_0: "unat (a :: addr) + 1 < 2 ^ 32 \<Longrightarrow> a + 1 \<noteq> 0"
proof
  assume a: "unat a + 1 < 2 ^ 32" and z: "a + 1 = 0"
  from a have "unat (a + 1) = unat a + 1" by (simp add: unat_word_ariths)
  with z show False by simp
qed

text \<open>As long as neither running pointer can reach the null address before the count is
  used up, the loop is the ascending copy of \<open>count\<close> bytes.\<close>

lemma memcpy_loop_copy_ascending:
  "unat d + unat count \<le> 2 ^ 32 \<Longrightarrow> unat s + unat count \<le> 2 ^ 32 \<Longrightarrow>
   (count \<noteq> 0 \<longrightarrow> d \<noteq> 0 \<and> s \<noteq> 0) \<Longrightarrow>
   memcpy_loop m d s count = copy_ascending m d s (unat count)"
proof (induction m d s count rule: memcpy_loop.induct)
  case (1 m d s count)
  show ?case
  proof (cases "count = 0")
    case True
    then show ?thesis by (subst memcpy_loop.simps) simp
  next
    case False
    with 1(4) have ds: "d \<noteq> 0" "s \<noteq> 0" by auto
    from False have c1: "unat (count - 1) = unat count - 1" and cpos: "0 < unat count"
      by (auto simp: unat_minus_one unat_gt_0)
    have b1: "unat (d + 1) + unat (count - 1) \<le> 2 ^ 32"
      using unat_plus_one_le[of d] 1(2) c1 cpos by linarith
    have b2: "unat (s + 1) + unat (count - 1) \<le> 2 ^ 32"
      using unat_plus_one_le[of s] 1(3) c1 cpos by linarith
    have nz: "count - 1 \<noteq> 0 \<longrightarrow> d + 1 \<noteq> 0 \<and> s + 1 \<noteq> 0"
    proof (intro impI conjI)
      assume "count - 1 \<noteq> 0"
      then have "unat (count - 1) \<noteq> 0" by (simp add: unat_eq_zero)
      then have "2 \<le> unat count" using c1 by simp
      with 1(2,3) have h: "unat d + 1 < 2 ^ 32" "unat s + 1 < 2 ^ 32" by auto
      show "d + 1 \<noteq> 0" by (rule plus_one_neq_0[OF h(1)])
      show "s + 1 \<noteq> 0" by (rule plus_one_neq_0[OF h(2)])
    qed
    have c: "d \<noteq> 0 \<and> s \<noteq> 0 \<and> count \<noteq> 0" using ds False by simp
    have "memcpy_loop (m(d := m s)) (d + 1) (s + 1) (count - 1) =
          copy_ascending (m(d := m s)) (d + 1) (s + 1) (unat (count - 1))"
      by (rule 1(1)[OF c b1 b2 nz])
    moreover have "unat count = Suc (unat (count - 1))" using cpos c1 by simp
    ultimately show ?thesis using c
      by (subst memcpy_loop.simps) simp
  qed
qed

text \<open>The loop writes nowhere but to the first \<open>count\<close> addresses from \<open>d\<close>.\<close>

lemma memcpy_loop_frame:
  "(\<forall>i < unat count. a \<noteq> d + of_nat i) \<Longrightarrow> memcpy_loop m d s count a = m a"
proof (induction m d s count rule: memcpy_loop.induct)
  case (1 m d s count)
  show ?case
  proof (cases "d \<noteq> 0 \<and> s \<noteq> 0 \<and> count \<noteq> 0")
    case False
    then show ?thesis by (subst memcpy_loop.simps) auto
  next
    case True
    then have c1: "unat (count - 1) = unat count - 1" and cpos: "0 < unat count"
      by (auto simp: unat_minus_one unat_gt_0)
    have "\<forall>i<unat (count - 1). a \<noteq> d + 1 + of_nat i"
    proof (intro allI impI)
      fix i assume "i < unat (count - 1)"
      then have "Suc i < unat count" using c1 by simp
      with 1(2) have "a \<noteq> d + of_nat (Suc i)" by blast
      then show "a \<noteq> d + 1 + of_nat i" by (simp add: add.assoc)
    qed
    from 1(1)[OF True this]
    have "memcpy_loop (m(d := m s)) (d + 1) (s + 1) (count - 1) a = (m(d := m s)) a" .
    moreover from 1(2)[rule_format, of 0] cpos have "a \<noteq> d" by simp
    ultimately show ?thesis using True by (subst memcpy_loop.simps) simp
  qed
qed

lemma copy_ascending_frame:
  "(\<forall>i < k. a \<noteq> d + of_nat i) \<Longrightarrow> copy_ascending m d s k a = m a"
proof (induction k arbitrary: m d s)
  case 0
  then show ?case by simp
next
  case (Suc k)
  have "\<forall>i<k. a \<noteq> d + 1 + of_nat i"
  proof (intro allI impI)
    fix i assume "i < k"
    then have "Suc i < Suc k" by simp
    with Suc.prems have "a \<noteq> d + of_nat (Suc i)" by blast
    then show "a \<noteq> d + 1 + of_nat i" by (simp add: add.assoc)
  qed
  from Suc.IH[OF this]
  have "copy_ascending (m(d := m s)) (d + 1) (s + 1) k a = (m(d := m s)) a" .
  moreover from Suc.prems[rule_format, of 0] have "a \<noteq> d" by simp
  ultimately show ?case by simp
qed

lemma word_add_of_nat_neq:
  fixes d :: addr
  assumes "i < j" "j < 2 ^ 32"
  shows "d + of_nat i \<noteq> d + of_nat j"
proof
  assume "d + of_nat i = d + of_nat j"
  then have "(of_nat i :: addr) = of_nat j" by simp
  then have "unat (of_nat i :: addr) = unat (of_nat j :: addr)" by simp
  then have "i mod 2 ^ 32 = j mod 2 ^ 32" by (simp add: unat_of_nat)
  with assms show False by simp
qed

text \<open>When no byte is written before it is read, the destination receives the source's
  original bytes.\<close>

lemma copy_ascending_content:
  "k \<le> 2 ^ 32 \<Longrightarrow> i < k \<Longrightarrow>
   (\<forall>i j. i < j \<and> j < k \<longrightarrow> d + of_nat i \<noteq> s + of_nat j) \<Longrightarrow>
   copy_ascending m d s k (d + of_nat i) = m (s + of_nat i)"
proof (induction k arbitrary: m d s i)
  case 0
  then show ?case by simp
next
  case (Suc k)
  show ?case
  proof (cases i)
    case 0
    have "\<forall>j<k. d \<noteq> d + 1 + of_nat j"
    proof (intro allI impI)
      fix j assume "j < k"
      then have "Suc j < 2 ^ 32" using Suc.prems(1) by simp
      from word_add_of_nat_neq[of 0 "Suc j" d] this show "d \<noteq> d + 1 + of_nat j"
        by (simp add: add.assoc)
    qed
    from copy_ascending_frame[OF this] 0 show ?thesis by simp
  next
    case (Suc i')
    have ov: "\<forall>i j. i < j \<and> j < k \<longrightarrow> d + 1 + of_nat i \<noteq> s + 1 + of_nat j"
    proof (intro allI impI)
      fix i j assume "i < j \<and> j < k"
      then have "Suc i < Suc j \<and> Suc j < Suc k" by simp
      with Suc.prems(3) have "d + of_nat (Suc i) \<noteq> s + of_nat (Suc j)" by blast
      then show "d + 1 + of_nat i \<noteq> s + 1 + of_nat j" by (simp add: add.assoc)
    qed
    have k: "k \<le> 2 ^ 32" and i': "i' < k" using Suc.prems Suc by simp_all
    have "copy_ascending (m(d := m s)) (d + 1) (s + 1) k (d + 1 + of_nat i') =
          (m(d := m s)) (s + 1 + of_nat i')"
      by (rule Suc.IH[OF k i' ov])
    moreover have "d \<noteq> s + of_nat (Suc i')"
      using Suc.prems(3)[rule_format, of 0 "Suc i'"] Suc.prems(2) Suc by simp
    ultimately show ?thesis using Suc by (simp add: add.assoc)
  qed
qed

text \<open>
  Claim C10 as stated fails where a running pointer wraps to the null address before the
  count is used up: copying 4 bytes to \<^verbatim>\<open>0xFFFFFFFE\<close> stops after two, since the third
  destination address is 0, and the third destination byte does not receive the third
  source byte.
\<close>

theorem memcpy_wrap_counterexample:
  "snd (memcpy pattern_mem 0xFFFFFFFE 0x1000 4) (0xFFFFFFFE + 2) \<noteq> pattern_mem (0x1000 + 2)"
  by (simp add: memcpy_def pattern_mem_def memcpy_loop.simps)

text \<open>
  Claim C10, amended. \<open>memcpy\<close> always returns \<open>dst\<close>; with a null \<open>dst\<close> or \<open>src\<close> it
  copies nothing whatever the count; it never modifies memory outside the \<open>count\<close>
  bytes from \<open>dst\<close>; and when neither the source nor the destination range runs past the
  top of the address space, it copies exactly \<open>count\<close> bytes, lowest address first, so
  that the destination holds the source's bytes whenever no source byte is overwritten
  before it is read.
\<close>

theorem memcpy_spec:
  "fst (memcpy m dst src count) = dst \<and>
   (dst = 0 \<or> src = 0 \<longrightarrow> snd (memcpy m dst src count) = m) \<and>
   (\<forall>a. (\<forall>i < unat count. a \<noteq> dst + of_nat i) \<longrightarrow> snd (memcpy m dst src count) a = m a) \<and>
   (dst \<noteq> 0 \<and> src \<noteq> 0 \<and> unat dst + unat count \<le> 2 ^ 32 \<and> unat src + unat count \<le> 2 ^ 32 \<longrightarrow>
      snd (memcpy m dst src count) = copy_ascending m dst src (unat count) \<and>
      ((\<forall>i j. i < j \<and> j < unat count \<longrightarrow> dst + of_nat i \<noteq> src + of_nat j) \<longrightarrow>
         (\<forall>i < unat count. snd (memcpy m dst src count) (dst + of_nat i) = m (src + of_nat i))))"
proof (intro conjI impI allI)
  show "fst (memcpy m dst src count) = dst" by (simp add: memcpy_def)
  show "snd (memcpy m dst src count) = m" if "dst = 0 \<or> src = 0"
    using that by (simp add: memcpy_def memcpy_loop_null)
  show "snd (memcpy m dst src count) a = m a" if "\<forall>i < unat count. a \<noteq> dst + of_nat i" for a
    using that by (simp add: memcpy_def memcpy_loop_frame)
next
  assume h: "dst \<noteq> 0 \<and> src \<noteq> 0 \<and> unat dst + unat count \<le> 2 ^ 32 \<and>
             unat src + unat count \<le> 2 ^ 32"
  then show eq: "snd (memcpy m dst src count) = copy_ascending m dst src (unat count)"
    by (simp add: memcpy_def memcpy_loop_copy_ascending)
  fix i
  assume ov: "\<forall>i j. i < j \<and> j < unat count \<longrightarrow> dst + of_nat i \<noteq> src + of_nat j"
    and i: "i < unat count"
  have "unat count \<le> 2 ^ 32" using h by simp
  from copy_ascending_content[OF this i ov] eq
  show "snd (memcpy m dst src count) (dst + of_nat i) = m (src + of_nat i)" by simp
qed

theorem memcpy_spec_witness:
  "fst (memcpy pattern_mem 0x2000 0x1000 3) = 0x2000 \<and>
   snd (memcpy pattern_mem 0 0x1000 3) = pattern_mem \<and>
   snd (memcpy pattern_mem 0x2000 0x1000 3) 0x1002 = pattern_mem 0x1002 \<and>
   snd (memcpy pattern_mem 0x2000 0x1000 3) (0x2000 + of_nat 2) = pattern_mem (0x1000 + of_nat 2)"
proof -
  have u3: "unat (3 :: size_t) = 3" by simp
  have three: "i = 0 \<or> i = 1 \<or> i = 2" if "i < 3" for i :: nat using that by arith
  have frame: "\<forall>i < unat (3 :: size_t). (0x1002 :: addr) \<noteq> 0x2000 + of_nat i"
    unfolding u3 by (auto dest!: three)
  have ov: "\<forall>i j. i < j \<and> j < unat (3 :: size_t) \<longrightarrow>
              (0x2000 :: addr) + of_nat i \<noteq> 0x1000 + of_nat j"
    unfolding u3
  proof (intro allI impI)
    fix i j :: nat assume "i < j \<and> j < 3"
    then have "i < 3" "j < 3" by auto
    then show "(0x2000 :: addr) + of_nat i \<noteq> 0x1000 + of_nat j"
      by (auto dest!: three)
  qed
  have rng: "(0x2000 :: addr) \<noteq> 0 \<and> (0x1000 :: addr) \<noteq> 0 \<and>
             unat (0x2000 :: addr) + unat (3 :: size_t) \<le> 2 ^ 32 \<and>
             unat (0x1000 :: addr) + unat (3 :: size_t) \<le> 2 ^ 32"
    by simp
  have two: "2 < unat (3 :: size_t)" by simp
  from memcpy_spec[of pattern_mem "0x2000" "0x1000" 3] frame ov rng two
  have "fst (memcpy pattern_mem 0x2000 0x1000 3) = 0x2000"
    and "snd (memcpy pattern_mem 0x2000 0x1000 3) 0x1002 = pattern_mem 0x1002"
    and "snd (memcpy pattern_mem 0x2000 0x1000 3) (0x2000 + of_nat 2) =
         pattern_mem (0x1000 + of_nat 2)"
    by blast+
  moreover from memcpy_spec[of pattern_mem 0 "0x1000" 3]
  have "snd (memcpy pattern_mem 0 0x1000 3) = pattern_mem" by blast
  ultimately show ?thesis by blast
qed

section \<open>Paths through the block list and the free-lists\<close>

lemma block_path_upd: "a \<notin> set bs \<Longrightarrow> block_path (bm(a := v)) p bs = block_path bm p bs"
  by (induction bs arbitrary: p) auto

lemma block_path_next_eq:
  "(\<forall>b \<in> set bs. b_next (bm' b) = b_next (bm b)) \<Longrightarrow> block_path bm' p bs = block_path bm p bs"
  by (induction bs arbitrary: p) auto

lemma block_path_unique: "block_path bm p bs \<Longrightarrow> block_path bm p bs' \<Longrightarrow> bs = bs'"
proof (induction bs arbitrary: p bs')
  case Nil
  then show ?case by (cases bs') auto
next
  case (Cons b bs)
  then show ?case by (cases bs') auto
qed

lemma block_path_suffix:
  "block_path bm p (xs @ b # ys) \<Longrightarrow> block_path bm b (b # ys)"
  by (induction xs arbitrary: p) auto

lemma block_path_hd_notin_tl: "block_path bm (b_next (bm b)) bs \<Longrightarrow> b \<notin> set bs"
proof
  assume p: "block_path bm (b_next (bm b)) bs" and "b \<in> set bs"
  then obtain xs ys where bs: "bs = xs @ b # ys" by (auto simp: in_set_conv_decomp)
  with p have "block_path bm b (b # ys)" using block_path_suffix by blast
  then have "block_path bm (b_next (bm b)) ys" by simp
  with p have "bs = ys" by (rule block_path_unique)
  with bs show False by simp
qed

lemma block_path_distinct: "block_path bm p bs \<Longrightarrow> distinct bs"
  by (induction bs arbitrary: p) (auto dest: block_path_hd_notin_tl)

lemma block_path_nonzero: "block_path bm p bs \<Longrightarrow> 0 \<notin> set bs"
  by (induction bs arbitrary: p) auto

lemma free_path_eq:
  "(\<forall>c \<in> set cs. f_next (cm' c) = f_next (cm c) \<and> f_prev (cm' c) = f_prev (cm c)) \<Longrightarrow>
   free_path cm' pv p cs = free_path cm pv p cs"
  by (induction cs arbitrary: pv p) auto

lemma free_path_unique: "free_path cm pv p cs \<Longrightarrow> free_path cm pv' p cs' \<Longrightarrow> cs = cs'"
proof (induction cs arbitrary: p pv pv' cs')
  case Nil
  then show ?case by (cases cs') auto
next
  case (Cons c cs)
  then show ?case by (cases cs') auto
qed

lemma free_path_suffix:
  "free_path cm pv p (xs @ c # ys) \<Longrightarrow> \<exists>pv'. free_path cm pv' c (c # ys)"
  by (induction xs arbitrary: p pv) auto

lemma free_path_hd_notin_tl: "free_path cm pv (f_next (cm c)) cs \<Longrightarrow> c \<notin> set cs"
proof
  assume p: "free_path cm pv (f_next (cm c)) cs" and "c \<in> set cs"
  then obtain xs ys where cs: "cs = xs @ c # ys" by (auto simp: in_set_conv_decomp)
  with p obtain pv' where "free_path cm pv' c (c # ys)" using free_path_suffix by blast
  then have "free_path cm c (f_next (cm c)) ys" by simp
  with p have "cs = ys" by (rule free_path_unique)
  with cs show False by simp
qed

lemma free_path_distinct: "free_path cm pv p cs \<Longrightarrow> distinct cs"
  by (induction cs arbitrary: pv p) (auto dest: free_path_hd_notin_tl)

lemma free_path_nonzero: "free_path cm pv p cs \<Longrightarrow> 0 \<notin> set cs"
  by (induction cs arbitrary: pv p) auto

section \<open>The search loops on well-linked lists\<close>

lemma block_with_free_space_loop_path:
  "block_path (blocks s) p bs \<Longrightarrow>
   block_with_free_space_loop s p sz =
     Some (case find (\<lambda>b. sz \<le> b_remaining (blocks s b)) bs of None \<Rightarrow> 0 | Some b \<Rightarrow> b)"
proof (induction bs arbitrary: p)
  case Nil
  then show ?case by (subst block_with_free_space_loop.simps) simp
next
  case (Cons b bs)
  then show ?case by (subst block_with_free_space_loop.simps) auto
qed

lemma use_freed_chunk_inner_path:
  "free_path (chunks s) pv f fl \<Longrightarrow>
   use_freed_chunk_inner s b f mn mx =
     Some (case find (in_window s mn mx) fl of None \<Rightarrow> (0, s)
           | Some c \<Rightarrow> (c, unlink_freed s b c))"
proof (induction fl arbitrary: pv f)
  case Nil
  then show ?case by (subst use_freed_chunk_inner.simps) simp
next
  case (Cons c fl)
  then have f: "f = c" "c \<noteq> 0" and nxt: "free_path (chunks s) c (f_next (chunks s c)) fl"
    by auto
  have w: "in_window s mn mx c =
           (mn \<le> c_size (chunks s c) \<and> c_size (chunks s c) \<le> mx)"
    by (simp add: in_window_def)
  show ?case
  proof (cases "in_window s mn mx c")
    case True
    with f w show ?thesis by (subst use_freed_chunk_inner.simps) simp
  next
    case False
    with f w Cons.IH[OF nxt] show ?thesis by (subst use_freed_chunk_inner.simps) auto
  qed
qed

lemma find_in_set: "find P xs = Some x \<Longrightarrow> x \<in> set xs \<and> P x"
  by (induction xs) (auto split: if_splits)

lemma use_freed_chunk_outer_path:
  "block_path (blocks s) p (map fst L) \<Longrightarrow>
   list_all (\<lambda>(b, cs, fl). free_path (chunks s) 0 (b_free (blocks s b)) fl) L \<Longrightarrow>
   use_freed_chunk_outer s p mn mx =
     Some (case first_fit (in_window s mn mx) L of None \<Rightarrow> (0, s)
           | Some (b, c) \<Rightarrow> (c, unlink_freed s b c))"
proof (induction L arbitrary: p)
  case Nil
  then show ?case by (subst use_freed_chunk_outer.simps) simp
next
  case (Cons e L)
  obtain b cs fl where e: "e = (b, cs, fl)" by (cases e)
  from Cons.prems e have p: "p = b" "b \<noteq> 0"
    and nxt: "block_path (blocks s) (b_next (blocks s b)) (map fst L)"
    and fp: "free_path (chunks s) 0 (b_free (blocks s b)) fl"
    and rest: "list_all (\<lambda>(b, cs, fl). free_path (chunks s) 0 (b_free (blocks s b)) fl) L"
    by auto
  note inner = use_freed_chunk_inner_path[OF fp, of b mn mx]
  show ?case
  proof (cases "find (in_window s mn mx) fl")
    case None
    with inner have "use_freed_chunk_inner s b (b_free (blocks s b)) mn mx = Some (0, s)" by simp
    with p None e Cons.IH[OF nxt rest] show ?thesis
      by (subst use_freed_chunk_outer.simps) simp
  next
    case (Some c)
    then have "c \<in> set fl" by (auto dest: find_in_set)
    with fp have "c \<noteq> 0" using free_path_nonzero by metis
    with inner Some p e show ?thesis
      by (subst use_freed_chunk_outer.simps) simp
  qed
qed

lemma first_fit_find:
  "map_option snd (first_fit W L) = find W (concat (map (\<lambda>(b, cs, fl). fl) L))"
proof (induction L)
  case Nil
  then show ?case by simp
next
  case (Cons e L)
  obtain b cs fl where e: "e = (b, cs, fl)" by (cases e)
  show ?case
  proof (cases "find W fl")
    case None
    then have "\<not> (\<exists>x \<in> set fl. W x)" by (simp add: find_None_iff)
    then have "find W (fl @ ys) = find W ys" for ys by (induction fl) auto
    with None e Cons show ?thesis by simp
  next
    case (Some c)
    then have "find W (fl @ ys) = Some c" for ys by (induction fl) (auto split: if_splits)
    with Some e show ?thesis by simp
  qed
qed

lemma first_fit_SomeD:
  "first_fit W L = Some (b, c) \<Longrightarrow>
     \<exists>L1 cs fl L2. L = L1 @ (b, cs, fl) # L2 \<and> find W fl = Some c \<and>
        (\<forall>e \<in> set L1. find W (snd (snd e)) = None)"
proof (induction L)
  case Nil
  then show ?case by simp
next
  case (Cons e L)
  obtain b' cs' fl' where e: "e = (b', cs', fl')" by (cases e)
  show ?case
  proof (cases "find W fl'")
    case None
    with Cons e obtain L1 cs fl L2 where "L = L1 @ (b, cs, fl) # L2" "find W fl = Some c"
      "\<forall>e \<in> set L1. find W (snd (snd e)) = None" by auto
    with None e have "e # L = (e # L1) @ (b, cs, fl) # L2 \<and> find W fl = Some c \<and>
        (\<forall>x \<in> set (e # L1). find W (snd (snd x)) = None)" by simp
    then show ?thesis by blast
  next
    case (Some c')
    with Cons.prems e have "b = b'" "c = c'" by auto
    with Some e have "e # L = [] @ (b, cs', fl') # L \<and> find W fl' = Some c \<and>
        (\<forall>x \<in> set []. find W (snd (snd x)) = None)" by simp
    then show ?thesis by blast
  qed
qed

section \<open>Chunk tiling and block geometry\<close>

lemma chunk_chain_eq:
  "(\<forall>c \<in> set cs. c_block (cm' c) = c_block (cm c) \<and> c_size (cm' c) = c_size (cm c)) \<Longrightarrow>
   chunk_chain cm' b a cs e = chunk_chain cm b a cs e"
  by (induction cs arbitrary: a) auto

lemma chunk_chain_bounds:
  "chunk_chain cm b a cs e \<Longrightarrow> c \<in> set cs \<Longrightarrow>
     a \<le> unat c \<and> unat c + unat FREED_SZ \<le> e \<and> c_block (cm c) = b \<and>
     unat FREED_SZ \<le> unat (c_size (cm c))"
proof (induction cs arbitrary: a)
  case Nil
  then show ?case by simp
next
  case (Cons x cs)
  have le: "a' \<le> e" if "chunk_chain cm b a' ys e" for a' ys
    using that by (induction ys arbitrary: a') (auto dest: add_leD1)
  from Cons.prems(1) have rest: "chunk_chain cm b (a + unat (c_size (cm x))) cs e"
    and x: "unat x = a" "c_block (cm x) = b" "unat FREED_SZ \<le> unat (c_size (cm x))" by auto
  show ?case
  proof (cases "c = x")
    case True
    with x le[OF rest] show ?thesis by auto
  next
    case False
    with Cons.prems(2) have "c \<in> set cs" by simp
    from Cons.IH[OF rest this] show ?thesis by auto
  qed
qed

lemma chunk_chain_le: "chunk_chain cm b a cs e \<Longrightarrow> a \<le> e"
  by (induction cs arbitrary: a) (auto dest: add_leD1)


lemma chunk_chain_snoc:
  "chunk_chain cm b a (cs @ [c]) e =
     (\<exists>m. chunk_chain cm b a cs m \<and> unat c = m \<and> c_block (cm c) = b \<and>
          unat FREED_SZ \<le> unat (c_size (cm c)) \<and> m + unat (c_size (cm c)) = e)"
  by (induction cs arbitrary: a) auto

lemma blocks_below_eq:
  "(\<forall>b \<in> set bs. b_size (bm' b) = b_size (bm b)) \<Longrightarrow>
   blocks_below bm' lim bs = blocks_below bm lim bs"
  by (induction bs arbitrary: lim) auto

lemma blocks_below_le:
  "blocks_below bm lim bs \<Longrightarrow> b \<in> set bs \<Longrightarrow> unat b + unat (b_size (bm b)) \<le> lim"
proof (induction bs arbitrary: lim)
  case Nil
  then show ?case by simp
next
  case (Cons x bs)
  show ?case
  proof (cases "b = x")
    case True
    with Cons.prems show ?thesis by simp
  next
    case False
    with Cons.prems have "b \<in> set bs" "blocks_below bm (unat x - unat BLOCK_HEADER_SZ) bs"
      and "unat x + unat (b_size (bm x)) = lim" by auto
    from Cons.IH[OF this(2,1)] this(3) show ?thesis by linarith
  qed
qed

lemma blocks_below_later:
  "blocks_below bm lim (xs @ b # ys) \<Longrightarrow> b' \<in> set ys \<Longrightarrow>
     unat b' + unat (b_size (bm b')) \<le> unat b - unat BLOCK_HEADER_SZ"
proof (induction xs arbitrary: lim)
  case Nil
  then show ?case by (auto dest: blocks_below_le)
next
  case (Cons x xs)
  then show ?case by auto
qed

lemma blocks_below_snoc:
  "blocks_below bm lim (bs @ [b]) =
     (blocks_below bm lim bs \<and>
      unat b + unat (b_size (bm b)) = (if bs = [] then lim else unat (last bs) - unat BLOCK_HEADER_SZ))"
  by (induction bs arbitrary: lim) auto

lemma map_fst_eq_value:
  "distinct (map fst L) \<Longrightarrow> (b, x) \<in> set L \<Longrightarrow> (b, y) \<in> set L \<Longrightarrow> x = y"
  by (meson eq_key_imp_eq_value)

section \<open>Heaps in order\<close>

lemma heap_inv_distinct: "heap_inv s L \<Longrightarrow> distinct (map fst L)"
  by (auto simp: heap_inv_def dest: block_path_distinct)

lemma heap_inv_block_ok: "heap_inv s L \<Longrightarrow> e \<in> set L \<Longrightarrow> block_ok s e"
  by (simp add: heap_inv_def list_all_iff)

lemma heap_inv_block_nonzero: "heap_inv s L \<Longrightarrow> (b, cs, fl) \<in> set L \<Longrightarrow> b \<noteq> 0"
proof -
  assume "heap_inv s L" and m: "(b, cs, fl) \<in> set L"
  then have "block_path (blocks s) (first_block s) (map fst L)" by (simp add: heap_inv_def)
  then have "0 \<notin> set (map fst L)" by (rule block_path_nonzero)
  moreover from m have "b \<in> set (map fst L)" by force
  ultimately show ?thesis by auto
qed

lemma block_ok_chunk:
  assumes "block_ok s (b, cs, fl)" "c \<in> set cs"
  shows "c_block (chunks s c) = b" "unat b + unat BLOCK_HEADER_SZ \<le> unat c"
    "unat c + unat FREED_SZ \<le> unat (b_top (blocks s b))" "c \<noteq> 0"
    "unat FREED_SZ \<le> unat (c_size (chunks s c))"
    "allocd (chunks s c) = (c \<notin> set fl)"
proof -
  from assms(1) have ch: "chunk_chain (chunks s) b (unat b + unat BLOCK_HEADER_SZ) cs
      (unat (b_top (blocks s b)))"
    and fl: "list_all (\<lambda>c. allocd (chunks s c) = (c \<notin> set fl)) cs"
    by (simp_all add: block_ok_def)
  from chunk_chain_bounds[OF ch assms(2)]
  show "c_block (chunks s c) = b" "unat b + unat BLOCK_HEADER_SZ \<le> unat c"
    "unat c + unat FREED_SZ \<le> unat (b_top (blocks s b))"
    "unat FREED_SZ \<le> unat (c_size (chunks s c))" by auto
  then have "0 < unat c" by (simp add: BLOCK_HEADER_SZ_def)
  then show "c \<noteq> 0" by (simp add: unat_gt_0)
  from fl assms(2) show "allocd (chunks s c) = (c \<notin> set fl)" by (simp add: list_all_iff)
qed

lemma block_ok_free:
  assumes "block_ok s (b, cs, fl)"
  shows "free_path (chunks s) 0 (b_free (blocks s b)) fl" "set fl \<subseteq> set cs"
  using assms by (simp_all add: block_ok_def)

lemma chunks_disjoint:
  assumes inv: "heap_inv s (L1 @ (b, cs, fl) # L2)" and e: "e \<in> set L1 \<union> set L2"
  shows "set cs \<inter> set (fst (snd e)) = {}"
proof (rule ccontr)
  assume "set cs \<inter> set (fst (snd e)) \<noteq> {}"
  then obtain c where c: "c \<in> set cs" "c \<in> set (fst (snd e))" by auto
  obtain b' cs' fl' where e': "e = (b', cs', fl')" by (cases e)
  from inv have ok: "block_ok s (b, cs, fl)" by (auto intro: heap_inv_block_ok)
  from inv e e' have ok': "block_ok s (b', cs', fl')" by (auto intro: heap_inv_block_ok)
  from block_ok_chunk(1)[OF ok c(1)] block_ok_chunk(1)[OF ok'] c(2) e'
  have "b' = b" by simp
  moreover from heap_inv_distinct[OF inv] e e' have "b' \<noteq> b" by force
  ultimately show False by simp
qed

lemma block_ok_frame:
  assumes ok: "block_ok s (b, cs, fl)"
    and blk: "b_top (blocks s' b) = b_top (blocks s b)"
      "b_remaining (blocks s' b) = b_remaining (blocks s b)"
      "b_size (blocks s' b) = b_size (blocks s b)"
      "b_free (blocks s' b) = b_free (blocks s b)"
    and ch: "\<forall>c \<in> set cs. chunks s' c = chunks s c"
  shows "block_ok s' (b, cs, fl)"
proof -
  from ok have sub: "set fl \<subseteq> set cs" by (simp add: block_ok_def)
  have "chunk_chain (chunks s') b a cs e = chunk_chain (chunks s) b a cs e" for a e
    by (rule chunk_chain_eq) (simp add: ch)
  moreover have "free_path (chunks s') pv p fl = free_path (chunks s) pv p fl" for pv p
    by (rule free_path_eq) (use ch sub in auto)
  moreover have "list_all (\<lambda>c. allocd (chunks s' c) = (c \<notin> set fl)) cs =
                 list_all (\<lambda>c. allocd (chunks s c) = (c \<notin> set fl)) cs"
    using ch by (simp add: list_all_iff)
  ultimately show ?thesis using ok blk by (simp add: block_ok_def)
qed

text \<open>An operation that works on one block and on chunk headers outside every other
  block's chunks keeps the heap in order, if it leaves that block in order.\<close>

lemma heap_inv_update:
  assumes inv: "heap_inv s (L1 @ (b, cs, fl) # L2)"
    and glob: "first_block s' = first_block s" "last_block s' = last_block s"
              "HEAP_TOP s' = HEAP_TOP s"
    and blk: "\<forall>a. a \<noteq> b \<longrightarrow> blocks s' a = blocks s a"
    and bf: "b_next (blocks s' b) = b_next (blocks s b)" "b_size (blocks s' b) = b_size (blocks s b)"
    and ch: "\<forall>e \<in> set L1 \<union> set L2. \<forall>c \<in> set (fst (snd e)). chunks s' c = chunks s c"
    and ok: "block_ok s' (b, cs', fl')"
  shows "heap_inv s' (L1 @ (b, cs', fl') # L2)"
proof -
  let ?L = "L1 @ (b, cs, fl) # L2" and ?L' = "L1 @ (b, cs', fl') # L2"
  have fsts: "map fst ?L' = map fst ?L" by simp
  have nx: "\<forall>a \<in> set (map fst ?L). b_next (blocks s' a) = b_next (blocks s a)"
    using blk bf by (metis)
  have sz: "\<forall>a \<in> set (map fst ?L). b_size (blocks s' a) = b_size (blocks s a)"
    using blk bf by (metis)
  from inv have "block_path (blocks s) (first_block s) (map fst ?L)" by (simp add: heap_inv_def)
  then have 1: "block_path (blocks s') (first_block s') (map fst ?L')"
    unfolding fsts glob using block_path_next_eq[OF nx] by simp
  from inv have "last_block s = fst (last ?L)" by (simp add: heap_inv_def)
  then have 2: "last_block s' = (if ?L' = [] then 0 else fst (last ?L'))"
    using glob by (cases "L2 = []") auto
  from inv have "blocks_below (blocks s) (unat (HEAP_TOP s)) (map fst ?L)" by (simp add: heap_inv_def)
  then have 3: "blocks_below (blocks s') (unat (HEAP_TOP s')) (map fst ?L')"
    unfolding fsts glob using blocks_below_eq[OF sz] by simp
  have others: "block_ok s' e" if e: "e \<in> set L1 \<union> set L2" for e
  proof -
    obtain b' cs' fl' where e': "e = (b', cs', fl')" by (cases e)
    from inv e have ok': "block_ok s e" by (auto intro: heap_inv_block_ok)
    from heap_inv_distinct[OF inv] e e' have "b' \<noteq> b" by force
    with blk have "blocks s' b' = blocks s b'" by simp
    moreover from ch e e' have "\<forall>c \<in> set cs'. chunks s' c = chunks s c" by force
    ultimately show ?thesis using ok' e' block_ok_frame[of s b' cs' fl' s'] by simp
  qed
  then have 4: "list_all (block_ok s') ?L'" using ok by (auto simp: list_all_iff)
  from 1 2 3 4 show ?thesis unfolding heap_inv_def by blast
qed

section \<open>The computed chunk size\<close>

lemma alloc_size_max: "alloc_size n = max (n + CHUNK_SZ) FREED_SZ"
  by (auto simp: alloc_size_def Let_def max_def)

lemma alloc_size_ge: "FREED_SZ \<le> alloc_size n"
  by (simp add: alloc_size_def Let_def not_less)

text \<open>As long as the sum fits in 32 bits, the computed size is the one on the integers.\<close>

lemma alloc_size_unat:
  "unat n + unat CHUNK_SZ < 2 ^ 32 \<Longrightarrow>
     unat (alloc_size n) = max (unat n + unat CHUNK_SZ) (unat FREED_SZ)"
  apply (simp add: alloc_size_def Let_def CHUNK_SZ_def FREED_SZ_def)
  apply (auto simp: word_less_nat_alt unat_word_ariths max_def)
  done

text \<open>
  Claim C6 asks, for every requested byte count \<open>n\<close>, for a computed chunk size of \<open>n\<close> plus
  the chunk header size, raised to the size of a freed record. \<open>smalloc\<close> takes the sum in
  \<^verbatim>\<open>SIZE_T\<close> and does not look for overflow, so for the twelve largest \<open>n\<close> the sum wraps:
  at \<open>n = 0xFFFFFFFF\<close> the computed size is 20, not \<open>n + 12\<close>, and on the default heap
  \<open>smalloc\<close> returns the non-null pointer \<^verbatim>\<open>0x7e023\<close> to a chunk whose recorded total size
  is 20 bytes.
\<close>

theorem smalloc_size_wraps:
  "alloc_size 0xFFFFFFFF = 20 \<and>
   unat (alloc_size 0xFFFFFFFF) < unat (0xFFFFFFFF :: size_t) + unat CHUNK_SZ \<and>
   map_option fst (smalloc zero_heap 0xFFFFFFFF) = Some 0x7e023 \<and>
   c_size (chunks (snd (the (smalloc zero_heap 0xFFFFFFFF))) 0x7e017) = 20"
  by (simp add: run cong: let_weak_cong)

section \<open>The size of a new block\<close>

lemma new_block_size_max: "new_block_size s R = max (PAGESIZE s) (R + BLOCK_HEADER_SZ)"
  by (auto simp: new_block_size_def Let_def max_def)

lemma new_block_size_ge: "PAGESIZE s \<le> new_block_size s R"
  by (simp add: new_block_size_def Let_def not_less)

lemma max_unat: "unat (max (a :: size_t) b) = max (unat a) (unat b)"
  by (simp add: max_def word_le_nat_alt)

text \<open>As long as the sum fits in 32 bits, the block size is the one on the integers.\<close>

lemma new_block_size_unat:
  "unat R + unat BLOCK_HEADER_SZ < 2 ^ 32 \<Longrightarrow>
     unat (new_block_size s R) = max (unat (PAGESIZE s)) (unat R + unat BLOCK_HEADER_SZ)"
  by (simp add: new_block_size_max max_unat unat_word_ariths)

text \<open>
  Claim C5 asks for every block created by growth to have total size exactly the larger
  of the configured minimum and the requested chunk size plus the block header size.
  \<open>__new_block\<close> takes the sum in \<^verbatim>\<open>SIZE_T\<close> and does not look for overflow. On the default
  heap \<open>smalloc(0xFFFFFFE4)\<close> computes the chunk size \<^verbatim>\<open>0xFFFFFFF0\<close>; adding the 24-byte
  header wraps to 8, so growth creates a block of the minimum 8192 bytes, and \<open>smalloc\<close>
  returns \<^verbatim>\<open>0x7e023\<close>, a chunk of recorded size \<^verbatim>\<open>0xFFFFFFF0\<close> in that block. The address
  of a new block is not looked at either: after one allocation, growth for a chunk of
  \<^verbatim>\<open>0xFFFFFFD4\<close> bytes puts the new header at \<^verbatim>\<open>0x7dffb\<close>, four bytes below the header of
  the last block, and linking the new block into the list overwrites its size field,
  which then holds \<^verbatim>\<open>0x7dffb\<close> and not the computed \<^verbatim>\<open>0xFFFFFFEC\<close>.
\<close>

theorem new_block_size_wraps:
  "alloc_size 0xFFFFFFE4 = 0xFFFFFFF0 \<and>
   new_block_size zero_heap 0xFFFFFFF0 = 8192 \<and>
   unat (new_block_size zero_heap 0xFFFFFFF0) <
     max (unat (PAGESIZE zero_heap)) (unat (0xFFFFFFF0 :: size_t) + unat BLOCK_HEADER_SZ) \<and>
   map_option fst (smalloc zero_heap 0xFFFFFFE4) = Some 0x7e023 \<and>
   first_block heap_huge_request = 0x7dfff \<and>
   b_size (blocks heap_huge_request 0x7dfff) = 8192 \<and>
   c_size (chunks heap_huge_request 0x7e017) = 0xFFFFFFF0 \<and>
   new_block_size heap_one_chunk 0xFFFFFFD4 = 0xFFFFFFEC \<and>
   fst (new_block heap_one_chunk 0xFFFFFFD4) = 0x7dffb \<and>
   b_size (blocks (snd (new_block heap_one_chunk 0xFFFFFFD4)) 0x7dffb) = 0x7dffb"
proof -
  have "alloc_size 0xFFFFFFE4 = 0xFFFFFFF0" "new_block_size zero_heap 0xFFFFFFF0 = 8192"
    "unat (new_block_size zero_heap 0xFFFFFFF0) <
       max (unat (PAGESIZE zero_heap)) (unat (0xFFFFFFF0 :: size_t) + unat BLOCK_HEADER_SZ)"
    by (simp_all add: run)
  with heap_huge_request_views new_block_over_header show ?thesis by simp
qed

section \<open>The accounting of a block\<close>

text \<open>
  Claim C4 asks, after every sequence of operations and for every block, for
  \<open>remaining + carved bytes + header size = block size\<close>. On the default heap,
  \<open>smalloc(0xFFFFFFE4)\<close> returns \<^verbatim>\<open>0x7e023\<close>: a chunk of recorded size \<^verbatim>\<open>0xFFFFFFF0\<close>, carved
  from a new block of 8192 bytes whose remaining count wraps to 8184; the three terms add
  up to far more than the block size. The bump cursor has wrapped back into the block
  header, so \<open>smalloc(0)\<close> then returns \<^verbatim>\<open>0x7e013\<close>, a chunk whose header lies over the
  block's own fields: the block now records size \<^verbatim>\<open>0x7dfff\<close> and remaining 20, and with the
  two chunks of recorded sizes \<^verbatim>\<open>0xFFFFFFF0\<close> and 20 the equation fails in \<^verbatim>\<open>SIZE_T\<close>
  arithmetic as well.
\<close>

theorem block_accounting_breaks:
  "map_option fst (smalloc zero_heap 0xFFFFFFE4) = Some 0x7e023 \<and>
   unat (b_remaining (blocks heap_huge_request 0x7dfff)) +
     unat (c_size (chunks heap_huge_request 0x7e017)) + unat BLOCK_HEADER_SZ \<noteq>
   unat (b_size (blocks heap_huge_request 0x7dfff)) \<and>
   map_option fst (smalloc heap_huge_request 0) = Some 0x7e013 \<and>
   b_size (blocks heap_huge_then_zero 0x7dfff) = 0x7dfff \<and>
   b_remaining (blocks heap_huge_then_zero 0x7dfff) = 20 \<and>
   c_size (chunks heap_huge_then_zero 0x7e017) = 0xFFFFFFF0 \<and>
   c_size (chunks heap_huge_then_zero 0x7e007) = 20 \<and>
   b_remaining (blocks heap_huge_then_zero 0x7dfff) +
     (c_size (chunks heap_huge_then_zero 0x7e017) + c_size (chunks heap_huge_then_zero 0x7e007)) +
     BLOCK_HEADER_SZ \<noteq>
   b_size (blocks heap_huge_then_zero 0x7dfff)"
  using heap_huge_request_views heap_huge_then_zero_views by (simp add: sizes)

section \<open>The introspection loops\<close>


lemma smalloc_avail_inner_path:
  "free_path (chunks s) pv p fl \<Longrightarrow>
   smalloc_avail_inner s p acc = Some (acc + sum_list (map (\<lambda>c. c_size (chunks s c)) fl))"
proof (induction fl arbitrary: pv p acc)
  case Nil
  then show ?case by (subst smalloc_avail_inner.simps) simp
next
  case (Cons c fl)
  then have p: "p = c" "c \<noteq> 0" and tl: "free_path (chunks s) c (f_next (chunks s c)) fl"
    by auto
  show ?case
    by (subst smalloc_avail_inner.simps) (simp add: p Cons.IH[OF tl] add.assoc)
qed

lemma smalloc_avail_outer_path:
  "block_path (blocks s) p (map fst L) \<Longrightarrow>
   list_all (\<lambda>(b, cs, fl). free_path (chunks s) 0 (b_free (blocks s b)) fl) L \<Longrightarrow>
   smalloc_avail_outer s p ib fr =
     Some (ib + sum_list (map (\<lambda>e. b_remaining (blocks s (fst e))) L),
           fr + sum_list (map (\<lambda>e. sum_list (map (\<lambda>c. c_size (chunks s c)) (snd (snd e)))) L))"
proof (induction L arbitrary: p ib fr)
  case Nil
  then show ?case by (subst smalloc_avail_outer.simps) simp
next
  case (Cons e L)
  obtain b cs fl where e: "e = (b, cs, fl)" by (cases e)
  from Cons.prems e have p: "p = b" "b \<noteq> 0"
    and nxt: "block_path (blocks s) (b_next (blocks s b)) (map fst L)"
    and fp: "free_path (chunks s) 0 (b_free (blocks s b)) fl"
    and rest: "list_all (\<lambda>(b, cs, fl). free_path (chunks s) 0 (b_free (blocks s b)) fl) L"
    by auto
  show ?case
    by (subst smalloc_avail_outer.simps)
       (simp add: p e smalloc_avail_inner_path[OF fp] Cons.IH[OF nxt rest] add.assoc)
qed



section \<open>The usage query\<close>








end
